theory Spec2Isabelle
  imports Main "HOL-Library.Sublist"
begin

section \<open>The Historical Court workflow: tools and agent graph\<close>

text \<open>
  The repository is one Python module, \<^verbatim>\<open>workflow_agents/agent.py\<close>. It defines two tool
  functions (\<^verbatim>\<open>update_session_state\<close>, \<^verbatim>\<open>export_verdict_to_txt\<close>), reads the model name from
  the environment and assembles a tree of agents. The tools are embedded as functions on an
  explicit world (session state, log, filesystem) that return the new world together with
  either the raised exception or the returned dictionary.
\<close>

subsection \<open>Python values and exceptions\<close>

text \<open>
  The session state is a Python dictionary whose values are arbitrary objects; the ones that
  matter for \<^verbatim>\<open>current_data + [value]\<close> are lists (concatenation succeeds) and everything else
  (the addition raises \<^verbatim>\<open>TypeError\<close>).
\<close>

datatype pyval = PyNone | PyInt int | PyStr string | PyList "pyval list"

datatype py_error =
    TypeError
  | ValueError
  | UnicodeEncodeError
  | FileNotFoundError
  | FileExistsError
  | NotADirectoryError
  | IsADirectoryError
  | PermissionError

text \<open>The binary \<^verbatim>\<open>+\<close> of Python on the values above.\<close>

fun py_add :: "pyval \<Rightarrow> pyval \<Rightarrow> py_error + pyval" where
  "py_add (PyList xs) (PyList ys) = Inr (PyList (xs @ ys))"
| "py_add (PyStr a) (PyStr b) = Inr (PyStr (a @ b))"
| "py_add (PyInt a) (PyInt b) = Inr (PyInt (a + b))"
| "py_add _ _ = Inl TypeError"

text \<open>\<^verbatim>\<open>dict.get(key, default)\<close>.\<close>

definition dict_get :: "('k \<rightharpoonup> 'v) \<Rightarrow> 'k \<Rightarrow> 'v \<Rightarrow> 'v" where
  "dict_get d key dflt = (case d key of None \<Rightarrow> dflt | Some v \<Rightarrow> v)"

subsection \<open>The world the tools act on\<close>

text \<open>
  The session state is \<^verbatim>\<open>tool_context.state\<close>, the one part of the tool context the tools use;
  the log holds the records handed to \<^verbatim>\<open>logging.info\<close>.
  A canonical path is the list of directory entries from the root. A node is a directory or a
  regular file with its bytes. \<open>denied\<close> marks the nodes the operating system refuses to
  modify (creating an entry in a denied directory, or opening a denied file for writing,
  fails with \<^verbatim>\<open>EACCES\<close>).
\<close>

type_synonym path = "string list"

datatype node = Dir | File string

record world =
  state :: "string \<rightharpoonup> pyval"
  log_records :: "string list"
  nodes :: "path \<rightharpoonup> node"
  denied :: "path \<Rightarrow> bool"
  cwd :: path

type_synonym tool_result = "(string \<times> string) list"

subsection \<open>\<^verbatim>\<open>update_session_state\<close>\<close>

text \<open>
  \<^verbatim>\<open>
  def update_session_state(tool_context, key, value):
      current_data = tool_context.state.get(key, [])
      tool_context.state[key] = current_data + [value]
      logging.info(f"[State Update] Key: {key} updated.")
      return {"status": "success"}
  \<close>
  When the addition raises, nothing has been assigned or logged yet.
\<close>

definition update_session_state :: "world \<Rightarrow> string \<Rightarrow> string \<Rightarrow> world \<times> (py_error + tool_result)" where
  "update_session_state w key value =
     (let current_data = dict_get (state w) key (PyList []) in
      case py_add current_data (PyList [PyStr value]) of
        Inl e \<Rightarrow> (w, Inl e)
      | Inr new_data \<Rightarrow>
          (w\<lparr>state := (state w)(key \<mapsto> new_data),
             log_records := log_records w @ [''[State Update] Key: '' @ key @ '' updated.'']\<rparr>,
           Inr [(''status'', ''success'')]))"

subsection \<open>Path names\<close>

text \<open>
  The tool runs on a POSIX system: \<^verbatim>\<open>os.path\<close> is \<^verbatim>\<open>posixpath\<close> and the separator is the
  slash. File names are taken as the byte strings the operating system sees; the slash and
  the null byte are single bytes of the encoding.
\<close>

definition sep :: char where
  "sep = CHR ''/''"

definition nul :: char where
  "nul = CHR 0x00"

text \<open>
  \<^verbatim>\<open>os.path.join(a, b)\<close>: an absolute \<open>b\<close> replaces \<open>a\<close>; otherwise \<open>b\<close> is appended, after a
  separator unless \<open>a\<close> is empty or already ends with one.
\<close>

definition os_path_join :: "string \<Rightarrow> string \<Rightarrow> string" where
  "os_path_join a b =
     (if b \<noteq> [] \<and> hd b = sep then b
      else if a = [] \<or> last a = sep then a @ b
      else a @ [sep] @ b)"

text \<open>
  \<^verbatim>\<open>os.path.split(p)\<close> cuts after the last separator (\<^verbatim>\<open>i = p.rfind(sep) + 1\<close>); the head loses
  its trailing separators unless it consists of separators only. \<^verbatim>\<open>os.path.dirname(p)\<close> is the
  head.
\<close>

definition rstrip_sep :: "string \<Rightarrow> string" where
  "rstrip_sep p = rev (dropWhile (\<lambda>c. c = sep) (rev p))"

definition os_path_split :: "string \<Rightarrow> string \<times> string" where
  "os_path_split p =
     (let head = rev (dropWhile (\<lambda>c. c \<noteq> sep) (rev p));
          tail = rev (takeWhile (\<lambda>c. c \<noteq> sep) (rev p))
      in (if head \<noteq> [] \<and> head \<noteq> replicate (length head) sep then rstrip_sep head else head, tail))"

definition os_path_dirname :: "string \<Rightarrow> string" where
  "os_path_dirname p =
     (let head = rev (dropWhile (\<lambda>c. c \<noteq> sep) (rev p))
      in if head \<noteq> [] \<and> head \<noteq> replicate (length head) sep then rstrip_sep head else head)"

subsection \<open>The filesystem\<close>

text \<open>
  \<^verbatim>\<open>p.split("/")\<close>, the components of a path name.
\<close>

fun split_sep :: "string \<Rightarrow> string list" where
  "split_sep [] = [[]]"
| "split_sep (c # cs) =
     (if c = sep then [] # split_sep cs
      else (case split_sep cs of [] \<Rightarrow> [[c]] | x # xs \<Rightarrow> (c # x) # xs))"

text \<open>
  Path resolution. Every component is looked up in the directory reached so far, which must
  exist (\<^verbatim>\<open>ENOENT\<close>) and be a directory (\<^verbatim>\<open>ENOTDIR\<close>); an empty component and \<^verbatim>\<open>.\<close> stay,
  \<^verbatim>\<open>..\<close> goes to the parent (the root is its own parent). There are no symbolic links.
\<close>

fun walk :: "(path \<rightharpoonup> node) \<Rightarrow> path \<Rightarrow> string list \<Rightarrow> py_error + path" where
  "walk fs cur [] = Inr cur"
| "walk fs cur (c # cs) =
     (case fs cur of
        None \<Rightarrow> Inl FileNotFoundError
      | Some (File b) \<Rightarrow> Inl NotADirectoryError
      | Some Dir \<Rightarrow>
          walk fs (if c = [] \<or> c = ''.'' then cur else if c = ''..'' then butlast cur else cur @ [c]) cs)"

definition start_dir :: "world \<Rightarrow> string \<Rightarrow> path" where
  "start_dir w p = (if p \<noteq> [] \<and> hd p = sep then [] else cwd w)"

text \<open>
  \<^verbatim>\<open>os.stat(p)\<close>, reduced to the node found; \<^verbatim>\<open>os.path.exists\<close> and \<^verbatim>\<open>os.path.isdir\<close> answer
  \<open>False\<close> on every error.
\<close>

definition lookup :: "world \<Rightarrow> string \<Rightarrow> py_error + node" where
  "lookup w p =
     (if nul \<in> set p then Inl ValueError
      else if p = [] then Inl FileNotFoundError
      else (case walk (nodes w) (start_dir w p) (split_sep p) of
              Inl e \<Rightarrow> Inl e
            | Inr q \<Rightarrow> (case nodes w q of None \<Rightarrow> Inl FileNotFoundError | Some n \<Rightarrow> Inr n)))"

definition os_path_exists :: "world \<Rightarrow> string \<Rightarrow> bool" where
  "os_path_exists w p = (case lookup w p of Inl e \<Rightarrow> False | Inr n \<Rightarrow> True)"

definition os_path_isdir :: "world \<Rightarrow> string \<Rightarrow> bool" where
  "os_path_isdir w p = (case lookup w p of Inr Dir \<Rightarrow> True | _ \<Rightarrow> False)"

text \<open>
  \<^verbatim>\<open>os.mkdir(p)\<close>. Trailing separators are ignored; the parent must resolve to a directory;
  an existing entry gives \<^verbatim>\<open>EEXIST\<close>, a parent that refuses new entries \<^verbatim>\<open>EACCES\<close>.
\<close>

definition os_mkdir :: "world \<Rightarrow> string \<Rightarrow> world \<times> (py_error + unit)" where
  "os_mkdir w p =
     (if nul \<in> set p then (w, Inl ValueError)
      else if p = [] then (w, Inl FileNotFoundError)
      else (let comps = rev (dropWhile (\<lambda>c. c = []) (rev (split_sep p))) in
            if comps = [] then (w, Inl FileExistsError)
            else (case walk (nodes w) (start_dir w p) (butlast comps) of
                    Inl e \<Rightarrow> (w, Inl e)
                  | Inr parent \<Rightarrow>
                      (case nodes w parent of
                         None \<Rightarrow> (w, Inl FileNotFoundError)
                       | Some (File b) \<Rightarrow> (w, Inl NotADirectoryError)
                       | Some Dir \<Rightarrow>
                           (let c = last comps in
                            if c = ''.'' \<or> c = ''..'' then (w, Inl FileExistsError)
                            else if nodes w (parent @ [c]) \<noteq> None then (w, Inl FileExistsError)
                            else if denied w parent then (w, Inl PermissionError)
                            else (w\<lparr>nodes := (nodes w)(parent @ [c] \<mapsto> Dir)\<rparr>, Inr ()))))))"

text \<open>
  \<^verbatim>\<open>os.makedirs(name, exist_ok=True)\<close>, after the library's source:
  \<^verbatim>\<open>
  head, tail = path.split(name)
  if not tail:
      head, tail = path.split(head)
  if head and tail and not path.exists(head):
      try:
          makedirs(head, exist_ok=exist_ok)
      except FileExistsError:
          pass
      if tail == curdir:
          return
  try:
      mkdir(name, mode)
  except OSError:
      if not exist_ok or not path.isdir(name):
          raise
  \<close>
  \<open>mkdir_exist_ok\<close> is the final \<^verbatim>\<open>try\<close> block (\<^verbatim>\<open>ValueError\<close> is not an \<^verbatim>\<open>OSError\<close>).
\<close>

definition mkdir_exist_ok :: "world \<Rightarrow> string \<Rightarrow> world \<times> (py_error + unit)" where
  "mkdir_exist_ok w name =
     (case os_mkdir w name of
        (w', Inl e) \<Rightarrow>
          if e = ValueError \<or> \<not> os_path_isdir w' name then (w', Inl e) else (w', Inr ())
      | (w', Inr u) \<Rightarrow> (w', Inr u))"

function os_makedirs :: "world \<Rightarrow> string \<Rightarrow> world \<times> (py_error + unit)" where
  "os_makedirs w name =
     (let (head0, tail0) = os_path_split name;
          (head, tail) = (if tail0 = [] then os_path_split head0 else (head0, tail0))
      in if head \<noteq> [] \<and> tail \<noteq> [] \<and> \<not> os_path_exists w head then
           (case os_makedirs w head of
              (w1, Inl e) \<Rightarrow>
                if e \<noteq> FileExistsError then (w1, Inl e)
                else if tail = ''.'' then (w1, Inr ())
                else mkdir_exist_ok w1 name
            | (w1, Inr u) \<Rightarrow>
                if tail = ''.'' then (w1, Inr ())
                else mkdir_exist_ok w1 name)
         else mkdir_exist_ok w name)"
  by pat_completeness auto
termination
proof (relation "measure (\<lambda>(w, name). length name)")
  show "wf (measure (\<lambda>(w, name). length name))"
    by simp
next
  fix w :: world and name :: string and x :: "string \<times> string" and head0 tail0 xa head tail
  assume a: "x = os_path_split name" "(head0, tail0) = x"
    "xa = (if tail0 = [] then os_path_split head0 else (head0, tail0))"
    "(head, tail) = xa" "head \<noteq> [] \<and> tail \<noteq> [] \<and> \<not> os_path_exists w head"
  have strip: "length (rstrip_sep q) \<le> length q" for q
    using length_dropWhile_le [of "\<lambda>c. c = sep" "rev q"] by (simp add: rstrip_sep_def)
  have fst_le: "length (fst (os_path_split p)) \<le> length (dropWhile (\<lambda>c. c \<noteq> sep) (rev p))" for p
    using strip [of "rev (dropWhile (\<lambda>c. c \<noteq> sep) (rev p))"]
    by (simp add: os_path_split_def Let_def)
  have le: "length (fst (os_path_split p)) \<le> length p" for p
    using fst_le [of p] length_dropWhile_le [of "\<lambda>c. c \<noteq> sep" "rev p"] by simp
  have lt: "length (fst (os_path_split p)) < length p" if "snd (os_path_split p) \<noteq> []" for p
  proof -
    have "length (takeWhile (\<lambda>c. c \<noteq> sep) (rev p)) + length (dropWhile (\<lambda>c. c \<noteq> sep) (rev p)) = length p"
      using takeWhile_dropWhile_id [of "\<lambda>c. c \<noteq> sep" "rev p"]
      by (metis length_append length_rev)
    moreover from that have "takeWhile (\<lambda>c. c \<noteq> sep) (rev p) \<noteq> []"
      by (simp add: os_path_split_def Let_def)
    ultimately have "length (dropWhile (\<lambda>c. c \<noteq> sep) (rev p)) < length p"
      by (cases "takeWhile (\<lambda>c. c \<noteq> sep) (rev p)") auto
    with fst_le [of p] show ?thesis
      by simp
  qed
  show "((w, head), (w, name)) \<in> measure (\<lambda>(w, name). length name)"
  proof (cases "tail0 = []")
    case True
    with a have "head = fst (os_path_split head0)" "snd (os_path_split head0) \<noteq> []"
      "head0 = fst (os_path_split name)"
      by (auto simp: prod_eq_iff)
    with lt [of head0] le [of name] show ?thesis
      by simp
  next
    case False
    with a have "head = fst (os_path_split name)" "snd (os_path_split name) \<noteq> []"
      by (auto simp: prod_eq_iff)
    with lt [of name] show ?thesis
      by simp
  qed
qed


declare os_makedirs.simps [simp del]

text \<open>
  \<^verbatim>\<open>open(p, "w", encoding="utf-8")\<close>: the file is created or truncated; the result is the node
  that the file object writes to. A name that ends with a separator or with a dot component
  names a directory (\<^verbatim>\<open>EISDIR\<close>).
\<close>

definition open_w :: "world \<Rightarrow> string \<Rightarrow> world \<times> (py_error + path)" where
  "open_w w p =
     (if nul \<in> set p then (w, Inl ValueError)
      else if p = [] then (w, Inl FileNotFoundError)
      else (let comps = split_sep p in
            case walk (nodes w) (start_dir w p) (butlast comps) of
              Inl e \<Rightarrow> (w, Inl e)
            | Inr parent \<Rightarrow>
                (case nodes w parent of
                   None \<Rightarrow> (w, Inl FileNotFoundError)
                 | Some (File b) \<Rightarrow> (w, Inl NotADirectoryError)
                 | Some Dir \<Rightarrow>
                     (let c = last comps in
                      if c = [] \<or> c = ''.'' \<or> c = ''..'' then (w, Inl IsADirectoryError)
                      else (case nodes w (parent @ [c]) of
                              Some Dir \<Rightarrow> (w, Inl IsADirectoryError)
                            | Some (File b) \<Rightarrow>
                                if denied w (parent @ [c]) then (w, Inl PermissionError)
                                else (w\<lparr>nodes := (nodes w)(parent @ [c] \<mapsto> File [])\<rparr>, Inr (parent @ [c]))
                            | None \<Rightarrow>
                                if denied w parent then (w, Inl PermissionError)
                                else (w\<lparr>nodes := (nodes w)(parent @ [c] \<mapsto> File [])\<rparr>, Inr (parent @ [c])))))))"

text \<open>
  The text is a Python string, a list of code points below \<open>0x110000\<close>. The UTF-8 codec is
  strict: a surrogate code point raises \<^verbatim>\<open>UnicodeEncodeError\<close>.
\<close>

definition utf8_encode_char :: "nat \<Rightarrow> py_error + string" where
  "utf8_encode_char cp =
     (if cp < 0x80 then Inr [char_of cp]
      else if cp < 0x800 then Inr [char_of (0xC0 + cp div 0x40), char_of (0x80 + cp mod 0x40)]
      else if 0xD800 \<le> cp \<and> cp < 0xE000 then Inl UnicodeEncodeError
      else if cp < 0x10000 then
        Inr [char_of (0xE0 + cp div 0x1000), char_of (0x80 + cp div 0x40 mod 0x40),
             char_of (0x80 + cp mod 0x40)]
      else
        Inr [char_of (0xF0 + cp div 0x40000), char_of (0x80 + cp div 0x1000 mod 0x40),
             char_of (0x80 + cp div 0x40 mod 0x40), char_of (0x80 + cp mod 0x40)])"

fun utf8_encode :: "nat list \<Rightarrow> py_error + string" where
  "utf8_encode [] = Inr []"
| "utf8_encode (cp # cps) =
     (case utf8_encode_char cp of
        Inl e \<Rightarrow> Inl e
      | Inr bs \<Rightarrow> (case utf8_encode cps of Inl e \<Rightarrow> Inl e | Inr rest \<Rightarrow> Inr (bs @ rest)))"

text \<open>
  \<^verbatim>\<open>file.write(text_content)\<close> and the close at the end of the \<^verbatim>\<open>with\<close> block. The text is encoded
  as a whole before any byte is written, so a codec error leaves the truncated file empty.
\<close>

definition file_write :: "world \<Rightarrow> path \<Rightarrow> nat list \<Rightarrow> world \<times> (py_error + unit)" where
  "file_write w file text_content =
     (case utf8_encode text_content of
        Inl e \<Rightarrow> (w, Inl e)
      | Inr bs \<Rightarrow> (w\<lparr>nodes := (nodes w)(file \<mapsto> File bs)\<rparr>, Inr ()))"

subsection \<open>\<^verbatim>\<open>export_verdict_to_txt\<close>\<close>

text \<open>
  \<^verbatim>\<open>
  def export_verdict_to_txt(tool_context, folder, file_name, text_content):
      path = os.path.join(folder, file_name)
      os.makedirs(os.path.dirname(path), exist_ok=True)
      with open(path, "w", encoding="utf-8") as file:
          file.write(text_content)
      return {"status": "success"}
  \<close>
  There is no exception handler: an error of any of the three steps leaves the function as the
  raised exception, with the filesystem as that step left it.
\<close>

definition export_verdict_to_txt :: "world \<Rightarrow> string \<Rightarrow> string \<Rightarrow> nat list \<Rightarrow> world \<times> (py_error + tool_result)" where
  "export_verdict_to_txt w folder file_name text_content =
     (let path = os_path_join folder file_name in
      case os_makedirs w (os_path_dirname path) of
        (w1, Inl e) \<Rightarrow> (w1, Inl e)
      | (w1, Inr u) \<Rightarrow>
          (case open_w w1 path of
             (w2, Inl e) \<Rightarrow> (w2, Inl e)
           | (w2, Inr file) \<Rightarrow>
               (case file_write w2 file text_content of
                  (w3, Inl e) \<Rightarrow> (w3, Inl e)
                | (w3, Inr u') \<Rightarrow> (w3, Inr [(''status'', ''success'')]))))"

subsection \<open>Runs of tool calls\<close>

text \<open>
  The two functions are the only code of the module that acts on the session state or on the
  filesystem. A run performs tool calls one after another on the same world; a call that
  raises leaves the world as the failing step left it, and the next call sees that world.
\<close>

datatype tool_call =
    UpdateSessionState string string
  | ExportVerdictToTxt string string "nat list"

fun call_tool :: "world \<Rightarrow> tool_call \<Rightarrow> world \<times> (py_error + tool_result)" where
  "call_tool w (UpdateSessionState key v) = update_session_state w key v"
| "call_tool w (ExportVerdictToTxt folder file_name text_content) =
     export_verdict_to_txt w folder file_name text_content"

fun run_tool_calls :: "world \<Rightarrow> tool_call list \<Rightarrow> world" where
  "run_tool_calls w [] = w"
| "run_tool_calls w (c # calls) = run_tool_calls (fst (call_tool w c)) calls"

subsection \<open>Plain path names\<close>





subsection \<open>The agent graph\<close>

text \<open>
  The constructors of the agent framework as the module calls them. Of an agent the name, the
  model, the tools and the sub-agents are kept; the prompt texts (description, instruction)
  play no part in the structure.
\<close>

datatype tool =
    WikipediaQueryRun
  | update_session_state_tool
  | export_verdict_to_txt_tool
  | exit_loop

datatype agent =
    Agent string "string option" "tool list" "agent list"
  | SequentialAgent string "agent list"
  | ParallelAgent string "agent list"
  | LoopAgent string "agent list" nat

text \<open>\<^verbatim>\<open>model_name = os.getenv("MODEL")\<close>: \<open>None\<close> when the variable is not set.\<close>

definition model_name :: "(string \<rightharpoonup> string) \<Rightarrow> string option" where
  "model_name environ = environ ''MODEL''"

definition the_admirer :: "(string \<rightharpoonup> string) \<Rightarrow> agent" where
  "the_admirer environ =
     Agent ''admirer'' (model_name environ) [WikipediaQueryRun, update_session_state_tool] []"

definition the_critic :: "(string \<rightharpoonup> string) \<Rightarrow> agent" where
  "the_critic environ =
     Agent ''critic'' (model_name environ) [WikipediaQueryRun, update_session_state_tool] []"

definition investigation_stage :: "(string \<rightharpoonup> string) \<Rightarrow> agent" where
  "investigation_stage environ =
     ParallelAgent ''investigation_stage'' [the_admirer environ, the_critic environ]"

definition the_judge :: "(string \<rightharpoonup> string) \<Rightarrow> agent" where
  "the_judge environ = Agent ''judge'' (model_name environ) [exit_loop] []"

definition trial_review_loop :: "(string \<rightharpoonup> string) \<Rightarrow> agent" where
  "trial_review_loop environ =
     LoopAgent ''trial_review_loop'' [investigation_stage environ, the_judge environ] 3"

definition verdict_scribe :: "(string \<rightharpoonup> string) \<Rightarrow> agent" where
  "verdict_scribe environ =
     Agent ''verdict_scribe'' (model_name environ) [export_verdict_to_txt_tool] []"

definition court_system_workflow :: "(string \<rightharpoonup> string) \<Rightarrow> agent" where
  "court_system_workflow environ =
     SequentialAgent ''court_system_workflow'' [trial_review_loop environ, verdict_scribe environ]"

definition inquiry_clerk :: "(string \<rightharpoonup> string) \<Rightarrow> agent" where
  "inquiry_clerk environ =
     Agent ''inquiry_clerk'' (model_name environ) [update_session_state_tool]
       [court_system_workflow environ]"

definition root_agent :: "(string \<rightharpoonup> string) \<Rightarrow> agent" where
  "root_agent environ = inquiry_clerk environ"

text \<open>
  The shape of a graph: node kinds, the names of the agent steps, the cap of a loop and the
  order of the children.
\<close>

datatype workflow_tree =
    Step string "workflow_tree list"
  | Sequential "workflow_tree list"
  | Parallel "workflow_tree list"
  | Loop nat "workflow_tree list"

fun graph_of :: "agent \<Rightarrow> workflow_tree" where
  "graph_of (Agent nm m ts subs) = Step nm (map graph_of subs)"
| "graph_of (SequentialAgent nm subs) = Sequential (map graph_of subs)"
| "graph_of (ParallelAgent nm subs) = Parallel (map graph_of subs)"
| "graph_of (LoopAgent nm subs cap) = Loop cap (map graph_of subs)"

text \<open>
  The tree as the specification words it (section 4.7): a Sequential root over the entry step
  and the main Sequential.
\<close>

definition spec_workflow_tree :: workflow_tree where
  "spec_workflow_tree =
     Sequential
       [Step ''inquiry_clerk'' [],
        Sequential
          [Loop 3 [Parallel [Step ''admirer'' [], Step ''critic'' []], Step ''judge'' []],
           Step ''verdict_scribe'' []]]"

section \<open>The loop engine\<close>

text \<open>
  The module only configures the loop: \<^verbatim>\<open>LoopAgent(sub_agents=[investigation_stage, the_judge],
  max_iterations=3)\<close> and the tool \<^verbatim>\<open>exit_loop\<close> of the judge. How a loop runs is decided by the
  agent framework, which is not among the sources; it is taken from sections 4.3, 4.4 and 4.6
  of the specification. What a child step does (a language model decides it) is left open: a
  step is any function from the state it sees to the state it leaves and the flag of the
  loop control signal.
\<close>

text \<open>
  Modelled from the spec: the outcome of a step (section 4.3, \<^verbatim>\<open>StepOutcome\<close>; the
  framework's agent run is not in the sources), reduced to the state it leaves and whether
  it raised the loop control signal.
\<close>

type_synonym 's step = "'s \<Rightarrow> 's \<times> bool"

text \<open>
  Modelled from the spec: the record of one executed child step (the framework's event stream
  is not in the sources): the iteration, the position of the child in the sequence, and
  whether it raised the signal.
\<close>

record event =
  iteration :: nat
  child :: nat
  raised :: bool

text \<open>
  Modelled from the spec: the execution of a loop's child sequence (section 4.4; the
  framework's sequencing code is not in the sources). Children run in order, each on the
  state its predecessor left; a child that raises the signal ends the sequence and the
  remaining siblings are not run.
\<close>

fun run_sequence :: "nat \<Rightarrow> nat \<Rightarrow> 's step list \<Rightarrow> 's \<Rightarrow> 's \<times> event list \<times> bool" where
  "run_sequence i j [] s = (s, [], False)"
| "run_sequence i j (c # cs) s =
     (let (s', exit_signal) = c s in
      if exit_signal then (s', [\<lparr>iteration = i, child = j, raised = True\<rparr>], True)
      else (let (s'', evs, sig) = run_sequence i (Suc j) cs s'
            in (s'', \<lparr>iteration = i, child = j, raised = False\<rparr> # evs, sig)))"

text \<open>
  Modelled from the spec: the states of a loop (section 4.6; the framework's \<^verbatim>\<open>LoopAgent\<close> is
  not in the sources).
\<close>

datatype loop_state = Running nat | Exited | MaxedOut

text \<open>
  Modelled from the spec: the loop's state machine (section 4.6; the framework's \<^verbatim>\<open>LoopAgent\<close>
  is not in the sources). \<open>loop_step cap children i s\<close> continues from \<open>Running i\<close>: when the
  count has reached the cap the loop is \<open>MaxedOut\<close>; otherwise the child sequence runs, a
  signal makes the loop \<open>Exited\<close>, and without one the loop is in \<open>Running (i + 1)\<close>.
\<close>

function loop_step :: "nat \<Rightarrow> 's step list \<Rightarrow> nat \<Rightarrow> 's \<Rightarrow> 's \<times> event list \<times> loop_state" where
  "loop_step cap children i s =
     (if cap \<le> i then (s, [], MaxedOut)
      else (let (s', evs, sig) = run_sequence i 0 children s in
            if sig then (s', evs, Exited)
            else (let (s'', evs', st) = loop_step cap children (Suc i) s'
                  in (s'', evs @ evs', st))))"
  by pat_completeness auto
termination
  by (relation "measure (\<lambda>(cap, children, i, s). cap - i)") auto

declare loop_step.simps [simp del]

text \<open>
  Modelled from the spec: running a loop node of the graph (section 4.6, initial state
  \<open>Running 0\<close>; the framework's run method is not in the sources). The cap and the children
  are the ones the module passes to \<^verbatim>\<open>LoopAgent\<close>; \<open>exec\<close> gives each child its behaviour.
\<close>

fun run_loop_agent :: "(agent \<Rightarrow> 's step) \<Rightarrow> agent \<Rightarrow> 's \<Rightarrow> ('s \<times> event list \<times> loop_state) option" where
  "run_loop_agent exec (LoopAgent nm subs cap) s = Some (loop_step cap (map exec subs) 0 s)"
| "run_loop_agent exec _ s = None"

subsection \<open>Example inputs\<close>

text \<open>
  A session in which the admirer has stored one finding, on a filesystem that holds only the
  root directory; and a session whose subject topic is stored as a plain string.
\<close>

definition example_world :: world where
  "example_world =
     \<lparr>state = [''pos_data'' \<mapsto> PyList [PyStr ''built roads'']],
      log_records = [],
      nodes = [[] \<mapsto> Dir],
      denied = (\<lambda>p. False),
      cwd = []\<rparr>"

definition scalar_world :: world where
  "scalar_world = example_world\<lparr>state := [''SUBJECT_TOPIC'' \<mapsto> PyStr ''Napoleon'']\<rparr>"

definition example_environ :: "string \<rightharpoonup> string" where
  "example_environ = [''MODEL'' \<mapsto> ''gemini-2.5-flash'']"

text \<open>
  Texts written as character strings (code points below 128); a filesystem whose working
  directory refuses new entries; and one in which a regular file has the name of the report
  folder.
\<close>

definition py_str :: "string \<Rightarrow> nat list" where
  "py_str s = map of_char s"

definition readonly_world :: world where
  "readonly_world = example_world\<lparr>denied := (\<lambda>p. p = [])\<rparr>"

definition blocked_world :: world where
  "blocked_world =
     example_world\<lparr>nodes := [[] \<mapsto> Dir, [''historical_court_reports''] \<mapsto> File ''old notes'']\<rparr>"

text \<open>
  Two behaviours of the children, on a state that counts the steps run: one in which the judge
  calls \<^verbatim>\<open>exit_loop\<close> at its second review, one in which nobody ever does.
\<close>

fun judge_exits_second_review :: "agent \<Rightarrow> nat step" where
  "judge_exits_second_review (Agent nm m ts subs) n = (Suc n, nm = ''judge'' \<and> 1 \<le> n)"
| "judge_exits_second_review a n = (n, False)"

fun nobody_exits :: "agent \<Rightarrow> nat step" where
  "nobody_exits a n = (Suc n, False)"

section \<open>Properties of the session state tool\<close>

lemma update_session_state_list:
  assumes "dict_get (state w) key (PyList []) = PyList xs"
  shows "update_session_state w key value =
           (w\<lparr>state := (state w)(key \<mapsto> PyList (xs @ [PyStr value])),
              log_records := log_records w @ [''[State Update] Key: '' @ key @ '' updated.'']\<rparr>,
            Inr [(''status'', ''success'')])"
  using assms by (simp add: update_session_state_def)

lemma update_session_state_other_keys:
  "k \<noteq> key \<Longrightarrow> state (fst (update_session_state w key value)) k = state w k"
  by (simp add: update_session_state_def Let_def split: sum.splits)

lemma update_session_state_keeps_prefix:
  assumes "dict_get (state w) k (PyList []) = PyList xs"
  shows "\<exists>ys. dict_get (state (fst (update_session_state w key value))) k (PyList []) = PyList (xs @ ys)"
proof (cases "k = key")
  case True
  with assms show ?thesis
    by (simp add: update_session_state_list dict_get_def)
next
  case False
  then have "state (fst (update_session_state w key value)) k = state w k"
    by (rule update_session_state_other_keys)
  with assms show ?thesis
    by (simp add: dict_get_def)
qed

lemma os_makedirs_keeps_session:
  "state (fst (os_makedirs w name)) = state w \<and> cwd (fst (os_makedirs w name)) = cwd w"
proof (induction w name rule: os_makedirs.induct)
  case (1 w name)
  have mk: "state (fst (mkdir_exist_ok v p)) = state v \<and> cwd (fst (mkdir_exist_ok v p)) = cwd v" for v p
    by (auto simp: mkdir_exist_ok_def os_mkdir_def Let_def split: sum.splits option.splits node.splits prod.splits)
  obtain head0 tail0 where s0: "os_path_split name = (head0, tail0)"
    by (cases "os_path_split name") auto
  obtain head tail where s1: "(if tail0 = [] then os_path_split head0 else (head0, tail0)) = (head, tail)"
    by (cases "if tail0 = [] then os_path_split head0 else (head0, tail0)") auto
  have eq: "os_makedirs w name =
     (if head \<noteq> [] \<and> tail \<noteq> [] \<and> \<not> os_path_exists w head then
        (case os_makedirs w head of
           (w1, Inl e) \<Rightarrow>
             if e \<noteq> FileExistsError then (w1, Inl e)
             else if tail = ''.'' then (w1, Inr ())
             else mkdir_exist_ok w1 name
         | (w1, Inr u) \<Rightarrow>
             if tail = ''.'' then (w1, Inr ())
             else mkdir_exist_ok w1 name)
      else mkdir_exist_ok w name)"
    using s0 s1 by (simp add: os_makedirs.simps [of w name])
  show ?case
  proof (cases "head \<noteq> [] \<and> tail \<noteq> [] \<and> \<not> os_path_exists w head")
    case True
    from "1.IH" [OF s0 [symmetric] refl s1 [symmetric] refl True]
    have ih: "state (fst (os_makedirs w head)) = state w" "cwd (fst (os_makedirs w head)) = cwd w"
      by simp_all
    obtain w1 r1 where rec: "os_makedirs w head = (w1, r1)"
      by (cases "os_makedirs w head") auto
    with ih have "state w1 = state w" "cwd w1 = cwd w"
      by simp_all
    with True rec mk [of w1 name] show ?thesis
      by (auto simp: eq split: sum.splits)
  next
    case False
    then have "os_makedirs w name = mkdir_exist_ok w name"
      by (simp only: eq if_False)
    with mk [of w name] show ?thesis
      by simp
  qed
qed

lemma open_w_keeps_session: "state (fst (open_w w p)) = state w"
  by (auto simp: open_w_def Let_def split: sum.splits option.splits node.splits)

lemma file_write_keeps_session: "state (fst (file_write w fh t)) = state w"
  by (auto simp: file_write_def split: sum.splits)

lemma export_verdict_to_txt_keeps_session:
  "state (fst (export_verdict_to_txt w folder file_name text_content)) = state w"
proof -
  let ?p = "os_path_join folder file_name"
  obtain w1 r1 where mk: "os_makedirs w (os_path_dirname ?p) = (w1, r1)"
    by (cases "os_makedirs w (os_path_dirname ?p)") auto
  with os_makedirs_keeps_session [of w "os_path_dirname ?p"] have s1: "state w1 = state w"
    by simp
  obtain w2 r2 where op: "open_w w1 ?p = (w2, r2)"
    by (cases "open_w w1 ?p") auto
  with open_w_keeps_session [of w1 ?p] s1 have s2: "state w2 = state w"
    by simp
  have s3: "state (fst (file_write w2 fh text_content)) = state w" for fh
    using file_write_keeps_session [of w2 fh text_content] s2 by simp
  show ?thesis
  proof (cases r1)
    case (Inl e)
    with mk s1 show ?thesis
      by (simp add: export_verdict_to_txt_def)
  next
    case made: (Inr u)
    show ?thesis
    proof (cases r2)
      case (Inl e)
      with mk made op s2 show ?thesis
        by (simp add: export_verdict_to_txt_def)
    next
      case (Inr fh)
      with mk made op s3 [of fh] show ?thesis
        by (cases "file_write w2 fh text_content")
          (auto simp: export_verdict_to_txt_def split: sum.splits)
    qed
  qed
qed

lemma call_tool_keeps_prefix:
  assumes "dict_get (state w) k (PyList []) = PyList xs"
  shows "\<exists>ys. dict_get (state (fst (call_tool w c))) k (PyList []) = PyList (xs @ ys)"
proof (cases c)
  case (UpdateSessionState key v)
  with update_session_state_keeps_prefix [OF assms, of key v] show ?thesis
    by simp
next
  case (ExportVerdictToTxt folder file_name text_content)
  with assms export_verdict_to_txt_keeps_session [of w folder file_name text_content]
  have "dict_get (state (fst (call_tool w c))) k (PyList []) = PyList (xs @ [])"
    by simp
  then show ?thesis ..
qed

lemma run_tool_calls_keeps_prefix:
  assumes "dict_get (state w) k (PyList []) = PyList xs"
  shows "\<exists>ys. dict_get (state (run_tool_calls w calls)) k (PyList []) = PyList (xs @ ys)"
  using assms
proof (induction calls arbitrary: w xs)
  case Nil
  then show ?case by simp
next
  case (Cons c calls)
  from call_tool_keeps_prefix [OF Cons.prems] obtain ys where
    step: "dict_get (state (fst (call_tool w c))) k (PyList []) = PyList (xs @ ys)"
    by blast
  from Cons.IH [OF step] obtain zs where
    "dict_get (state (run_tool_calls (fst (call_tool w c)) calls)) k (PyList [])
       = PyList ((xs @ ys) @ zs)"
    by blast
  then show ?case
    by auto
qed

text \<open>
  C1. Whenever reading \<open>k\<close> (with the empty list as default) gives a sequence \<open>xs\<close>, that is,
  \<open>k\<close> is absent or holds a list, a call of \<^verbatim>\<open>update_session_state\<close> with \<open>(k, v)\<close> followed by
  the same read gives \<open>xs\<close> with \<open>v\<close> appended at the end; and after any further tool calls of
  the run the sequence read at \<open>k\<close> still starts with \<open>xs\<close>: no prior entry is lost.
\<close>

theorem update_session_state_appends:
  assumes "dict_get (state w) k (PyList []) = PyList xs"
  shows "dict_get (state (fst (update_session_state w k v))) k (PyList []) = PyList (xs @ [PyStr v])
       \<and> (\<exists>ys. dict_get (state (run_tool_calls w calls)) k (PyList []) = PyList (xs @ ys))"
proof
  show "dict_get (state (fst (update_session_state w k v))) k (PyList []) = PyList (xs @ [PyStr v])"
    using assms by (simp add: update_session_state_list dict_get_def)
  show "\<exists>ys. dict_get (state (run_tool_calls w calls)) k (PyList []) = PyList (xs @ ys)"
    using assms by (rule run_tool_calls_keeps_prefix)
qed

theorem update_session_state_appends_witness:
  "dict_get (state example_world) ''pos_data'' (PyList []) = PyList [PyStr ''built roads'']
   \<and> dict_get (state (fst (update_session_state example_world ''pos_data'' ''won battles'')))
         ''pos_data'' (PyList [])
       = PyList [PyStr ''built roads'', PyStr ''won battles'']
   \<and> dict_get (state (fst (update_session_state example_world ''neg_data'' ''lost a war'')))
         ''neg_data'' (PyList [])
       = PyList [PyStr ''lost a war'']"
proof -
  have present: "dict_get (state example_world) ''pos_data'' (PyList []) = PyList [PyStr ''built roads'']"
    by (simp add: dict_get_def example_world_def)
  have absent: "dict_get (state example_world) ''neg_data'' (PyList []) = PyList []"
    by (simp add: dict_get_def example_world_def)
  show ?thesis
    using present
      update_session_state_appends [OF present, of "''won battles''" "[]"]
      update_session_state_appends [OF absent, of "''lost a war''" "[]"]
    by simp
qed

text \<open>
  C7, as stated, fails: on a session whose key holds a value that is not a list the addition
  \<^verbatim>\<open>current_data + [value]\<close> raises \<^verbatim>\<open>TypeError\<close> and no status is returned.
\<close>

theorem update_session_state_scalar_counterexample:
  "update_session_state scalar_world ''SUBJECT_TOPIC'' ''Caesar'' = (scalar_world, Inl TypeError)"
  by (simp add: update_session_state_def dict_get_def scalar_world_def)

text \<open>
  C7, amended. Whenever the key is absent or holds a list, \<^verbatim>\<open>update_session_state\<close> returns the
  success status; the session state changes by the append of the value at the key and by
  nothing else, the filesystem is untouched, and one record is handed to the logger. Whenever
  the key holds a value that is not a list, the call raises \<^verbatim>\<open>TypeError\<close> and changes nothing.
\<close>

theorem update_session_state_success:
  "(dict_get (state w) key (PyList []) = PyList xs \<longrightarrow>
       snd (update_session_state w key v) = Inr [(''status'', ''success'')]
     \<and> state (fst (update_session_state w key v)) = (state w)(key \<mapsto> PyList (xs @ [PyStr v]))
     \<and> nodes (fst (update_session_state w key v)) = nodes w
     \<and> denied (fst (update_session_state w key v)) = denied w
     \<and> cwd (fst (update_session_state w key v)) = cwd w
     \<and> log_records (fst (update_session_state w key v))
         = log_records w @ [''[State Update] Key: '' @ key @ '' updated.''])
   \<and> ((\<forall>ys. dict_get (state w) key (PyList []) \<noteq> PyList ys) \<longrightarrow>
       update_session_state w key v = (w, Inl TypeError))"
proof (intro conjI impI)
  assume "\<forall>ys. dict_get (state w) key (PyList []) \<noteq> PyList ys"
  then show "update_session_state w key v = (w, Inl TypeError)"
    by (cases "dict_get (state w) key (PyList [])") (simp_all add: update_session_state_def)
qed (simp_all add: update_session_state_list)

theorem update_session_state_success_witness:
  "dict_get (state example_world) ''neg_data'' (PyList []) = PyList []
   \<and> snd (update_session_state example_world ''neg_data'' ''lost a war'') = Inr [(''status'', ''success'')]
   \<and> state (fst (update_session_state example_world ''neg_data'' ''lost a war''))
       = (state example_world)(''neg_data'' \<mapsto> PyList [PyStr ''lost a war''])
   \<and> log_records (fst (update_session_state example_world ''neg_data'' ''lost a war''))
       = [''[State Update] Key: neg_data updated.'']
   \<and> dict_get (state scalar_world) ''SUBJECT_TOPIC'' (PyList []) = PyStr ''Napoleon''
   \<and> update_session_state scalar_world ''SUBJECT_TOPIC'' ''Caesar'' = (scalar_world, Inl TypeError)"
proof -
  have absent: "dict_get (state example_world) ''neg_data'' (PyList []) = PyList []"
    by (simp add: dict_get_def example_world_def)
  have scalar: "dict_get (state scalar_world) ''SUBJECT_TOPIC'' (PyList []) = PyStr ''Napoleon''"
    by (simp add: dict_get_def scalar_world_def)
  then have no_list: "\<forall>ys. dict_get (state scalar_world) ''SUBJECT_TOPIC'' (PyList []) \<noteq> PyList ys"
    by simp
  have "log_records example_world = []"
    by (simp add: example_world_def)
  with absent scalar no_list
    update_session_state_success [of example_world "''neg_data''" "[]" "''lost a war''"]
    update_session_state_success [of scalar_world "''SUBJECT_TOPIC''" "[]" "''Caesar''"]
  show ?thesis
    by simp
qed

text \<open>
  C9. A call of \<^verbatim>\<open>update_session_state\<close> with key \<open>k\<close> leaves the binding of every other key
  exactly as it was, whether the call returns or raises.
\<close>

theorem update_session_state_frame:
  assumes "k' \<noteq> k"
  shows "state (fst (update_session_state w k v)) k' = state w k'"
  using assms by (rule update_session_state_other_keys)

theorem update_session_state_frame_witness:
  "''pos_data'' \<noteq> ''neg_data''
   \<and> state (fst (update_session_state example_world ''neg_data'' ''lost a war'')) ''pos_data''
       = Some (PyList [PyStr ''built roads''])"
proof -
  have ne: "''pos_data'' \<noteq> ''neg_data''"
    by simp
  from update_session_state_frame [OF ne, of example_world "''lost a war''"] ne show ?thesis
    by (simp add: example_world_def)
qed

section \<open>The assembled graph\<close>

text \<open>
  C8, as stated, fails: the root of the assembled graph is the entry agent itself, not a
  Sequential node with the entry step as its first child.
\<close>

theorem root_agent_not_spec_tree_counterexample:
  "graph_of (root_agent example_environ) \<noteq> spec_workflow_tree"
  by (simp add: root_agent_def inquiry_clerk_def spec_workflow_tree_def)

text \<open>
  C8, amended. The root is the entry agent step \<open>inquiry_clerk\<close>; its only sub-agent is a
  Sequential of a Loop capped at 3 iterations over [Parallel(admirer, critic), judge],
  followed by the scribe step.
\<close>

theorem root_agent_graph:
  "graph_of (root_agent environ) =
     Step ''inquiry_clerk''
       [Sequential
          [Loop 3 [Parallel [Step ''admirer'' [], Step ''critic'' []], Step ''judge'' []],
           Step ''verdict_scribe'' []]]"
  by (simp add: root_agent_def inquiry_clerk_def court_system_workflow_def
      trial_review_loop_def investigation_stage_def the_admirer_def the_critic_def
      the_judge_def verdict_scribe_def)

section \<open>Properties of the loop\<close>

lemma run_sequence_events:
  "run_sequence i j cs s = (s', evs, sig) \<Longrightarrow>
     length evs \<le> length cs \<and> (\<forall>e\<in>set evs. iteration e = i \<and> j \<le> child e)"
proof (induction cs arbitrary: j s s' evs sig)
  case Nil
  then show ?case by simp
next
  case (Cons c cs)
  show ?case
  proof (cases "c s")
    case (Pair s1 sig1)
    show ?thesis
    proof (cases sig1)
      case True
      with Cons.prems Pair show ?thesis by auto
    next
      case False
      obtain s2 evs2 sig2 where rest: "run_sequence i (Suc j) cs s1 = (s2, evs2, sig2)"
        by (cases "run_sequence i (Suc j) cs s1") auto
      from Cons.IH [OF rest] have "length evs2 \<le> length cs"
        and "\<forall>e\<in>set evs2. iteration e = i \<and> j \<le> child e"
        by (auto intro: Suc_leD)
      with Cons.prems Pair False rest show ?thesis
        by auto
    qed
  qed
qed

lemma run_sequence_no_signal:
  "run_sequence i j cs s = (s', evs, False) \<Longrightarrow>
     length evs = length cs \<and> (\<forall>e\<in>set evs. \<not> raised e)"
proof (induction cs arbitrary: j s s' evs)
  case Nil
  then show ?case by simp
next
  case (Cons c cs)
  show ?case
  proof (cases "c s")
    case (Pair s1 sig1)
    show ?thesis
    proof (cases sig1)
      case True
      with Cons.prems Pair show ?thesis by auto
    next
      case False
      obtain s2 evs2 sig2 where rest: "run_sequence i (Suc j) cs s1 = (s2, evs2, sig2)"
        by (cases "run_sequence i (Suc j) cs s1") auto
      with Cons.prems Pair False have "sig2 = False" and evs: "evs = \<lparr>iteration = i, child = j, raised = False\<rparr> # evs2"
        by auto
      with Cons.IH [of "Suc j" s1 s2 evs2] rest show ?thesis
        by auto
    qed
  qed
qed

lemma run_sequence_signal:
  "run_sequence i j cs s = (s', evs, True) \<Longrightarrow>
     (\<exists>k. \<lparr>iteration = i, child = k, raised = True\<rparr> \<in> set evs \<and> (\<forall>e\<in>set evs. child e \<le> k \<and> (raised e \<longrightarrow> child e = k)))"
proof (induction cs arbitrary: j s s' evs)
  case Nil
  then show ?case by simp
next
  case (Cons c cs)
  show ?case
  proof (cases "c s")
    case (Pair s1 sig1)
    show ?thesis
    proof (cases sig1)
      case True
      with Cons.prems Pair show ?thesis by auto
    next
      case False
      obtain s2 evs2 sig2 where rest: "run_sequence i (Suc j) cs s1 = (s2, evs2, sig2)"
        by (cases "run_sequence i (Suc j) cs s1") auto
      with Cons.prems Pair False have sig2: "sig2 = True" and evs: "evs = \<lparr>iteration = i, child = j, raised = False\<rparr> # evs2"
        by auto
      from Cons.IH [of "Suc j" s1 s2 evs2] rest sig2 obtain k where
        k: "\<lparr>iteration = i, child = k, raised = True\<rparr> \<in> set evs2" "\<forall>e\<in>set evs2. child e \<le> k \<and> (raised e \<longrightarrow> child e = k)"
        by blast
      from run_sequence_events [OF rest] k(1) have "Suc j \<le> k"
        by fastforce
      with k evs show ?thesis
        by (intro exI [of _ k]) auto
    qed
  qed
qed


lemma loop_step_events:
  "loop_step cap cs i s = (s', evs, st) \<Longrightarrow>
     (\<forall>e\<in>set evs. i \<le> iteration e \<and> iteration e < cap) \<and> length evs \<le> (cap - i) * length cs
     \<and> (st = Exited \<or> st = MaxedOut)"
proof (induction cap cs i s arbitrary: s' evs st rule: loop_step.induct)
  case (1 cap children i s)
  show ?case
  proof (cases "cap \<le> i")
    case True
    with "1.prems" show ?thesis
      by (simp add: loop_step.simps [of cap children i s])
  next
    case False
    obtain s1 evs1 sig where seq: "run_sequence i 0 children s = (s1, evs1, sig)"
      by (cases "run_sequence i 0 children s") auto
    note ev1 = run_sequence_events [OF seq]
    show ?thesis
    proof (cases sig)
      case True
      with "1.prems" False seq have "evs = evs1" "st = Exited"
        by (simp_all add: loop_step.simps [of cap children i s])
      moreover from False obtain n where "cap - i = Suc n"
        by (cases "cap - i") auto
      then have "length evs1 \<le> (cap - i) * length children"
        using ev1 by simp
      ultimately show ?thesis
        using ev1 False by auto
    next
      case nosig: False
      obtain s2 evs2 st2 where rest: "loop_step cap children (Suc i) s1 = (s2, evs2, st2)"
        by (cases "loop_step cap children (Suc i) s1") auto
      from "1.prems" False seq nosig rest have res: "evs = evs1 @ evs2" "st = st2"
        by (simp_all add: loop_step.simps [of cap children i s])
      from "1.IH" [OF False refl seq [symmetric] refl nosig rest]
      have ih: "\<forall>e\<in>set evs2. Suc i \<le> iteration e \<and> iteration e < cap"
        "length evs2 \<le> (cap - Suc i) * length children" "st2 = Exited \<or> st2 = MaxedOut"
        by auto
      from False obtain n where n: "cap - i = Suc n" "cap - Suc i = n"
        by (cases "cap - i") auto
      with ih(2) ev1 res have "length evs \<le> (cap - i) * length children"
        by simp
      with ih ev1 res False show ?thesis
        by (auto intro: Suc_leD)
    qed
  qed
qed


lemma loop_step_exit:
  "loop_step cap cs i s = (s', evs, st) \<Longrightarrow> \<lparr>iteration = i', child = k, raised = True\<rparr> \<in> set evs \<Longrightarrow>
     st = Exited \<and> (\<forall>e\<in>set evs. iteration e < i' \<or> (iteration e = i' \<and> child e \<le> k))"
proof (induction cap cs i s arbitrary: s' evs st rule: loop_step.induct)
  case (1 cap children i s)
  show ?case
  proof (cases "cap \<le> i")
    case True
    with "1.prems" show ?thesis
      by (simp add: loop_step.simps [of cap children i s])
  next
    case False
    obtain s1 evs1 sig where seq: "run_sequence i 0 children s = (s1, evs1, sig)"
      by (cases "run_sequence i 0 children s") auto
    note ev1 = run_sequence_events [OF seq]
    show ?thesis
    proof (cases sig)
      case True
      with "1.prems" False seq have res: "evs = evs1" "st = Exited"
        by (simp_all add: loop_step.simps [of cap children i s])
      from seq True have "run_sequence i 0 children s = (s1, evs1, True)"
        by simp
      from run_sequence_signal [OF this] obtain k0 where
        k0: "\<forall>e\<in>set evs1. child e \<le> k0 \<and> (raised e \<longrightarrow> child e = k0)"
        by blast
      from "1.prems"(2) res ev1 have "i' = i"
        by fastforce
      moreover from "1.prems"(2) res k0 have "k = k0"
        by fastforce
      ultimately show ?thesis
        using res ev1 k0 by auto
    next
      case nosig: False
      obtain s2 evs2 st2 where rest: "loop_step cap children (Suc i) s1 = (s2, evs2, st2)"
        by (cases "loop_step cap children (Suc i) s1") auto
      from "1.prems" False seq nosig rest have res: "evs = evs1 @ evs2" "st = st2"
        by (simp_all add: loop_step.simps [of cap children i s])
      from seq nosig have "run_sequence i 0 children s = (s1, evs1, False)"
        by simp
      from run_sequence_no_signal [OF this]
      have quiet: "\<forall>e\<in>set evs1. \<not> raised e"
        by simp
      with "1.prems"(2) res have in2: "\<lparr>iteration = i', child = k, raised = True\<rparr> \<in> set evs2"
        by fastforce
      from "1.IH" [OF False refl seq [symmetric] refl nosig rest in2]
      have ih: "st2 = Exited" "\<forall>e\<in>set evs2. iteration e < i' \<or> (iteration e = i' \<and> child e \<le> k)"
        by auto
      from loop_step_events [OF rest] in2 have "Suc i \<le> i'"
        by fastforce
      with ev1 have "\<forall>e\<in>set evs1. iteration e < i'"
        by auto
      with ih res show ?thesis
        by auto
    qed
  qed
qed

lemma loop_step_no_signal:
  "loop_step cap cs i s = (s', evs, st) \<Longrightarrow> \<forall>e\<in>set evs. \<not> raised e \<Longrightarrow>
     st = MaxedOut \<and> length evs = (cap - i) * length cs"
proof (induction cap cs i s arbitrary: s' evs st rule: loop_step.induct)
  case (1 cap children i s)
  show ?case
  proof (cases "cap \<le> i")
    case True
    with "1.prems" show ?thesis
      by (simp add: loop_step.simps [of cap children i s])
  next
    case False
    obtain s1 evs1 sig where seq: "run_sequence i 0 children s = (s1, evs1, sig)"
      by (cases "run_sequence i 0 children s") auto
    show ?thesis
    proof (cases sig)
      case True
      with "1.prems" False seq have res: "evs = evs1"
        by (simp_all add: loop_step.simps [of cap children i s])
      from seq True have "run_sequence i 0 children s = (s1, evs1, True)"
        by simp
      from run_sequence_signal [OF this] obtain k0 where
        "\<lparr>iteration = i, child = k0, raised = True\<rparr> \<in> set evs1"
        by blast
      with res "1.prems"(2) show ?thesis
        by fastforce
    next
      case nosig: False
      obtain s2 evs2 st2 where rest: "loop_step cap children (Suc i) s1 = (s2, evs2, st2)"
        by (cases "loop_step cap children (Suc i) s1") auto
      from "1.prems" False seq nosig rest have res: "evs = evs1 @ evs2" "st = st2"
        by (simp_all add: loop_step.simps [of cap children i s])
      from seq nosig have "run_sequence i 0 children s = (s1, evs1, False)"
        by simp
      from run_sequence_no_signal [OF this]
      have len1: "length evs1 = length children"
        by simp
      from "1.prems"(2) res have "\<forall>e\<in>set evs2. \<not> raised e"
        by simp
      from "1.IH" [OF False refl seq [symmetric] refl nosig rest this]
      have ih: "st2 = MaxedOut" "length evs2 = (cap - Suc i) * length children"
        by auto
      from False obtain n where n: "cap - i = Suc n" "cap - Suc i = n"
        by (cases "cap - i") auto
      with ih len1 res show ?thesis
        by simp
    qed
  qed
qed

lemma run_trial_review_loop:
  "run_loop_agent exec (trial_review_loop environ) s =
     Some (loop_step 3 [exec (investigation_stage environ), exec (the_judge environ)] 0 s)"
  by (simp add: trial_review_loop_def)

text \<open>
  C2. Whatever the children do, the run of \<open>trial_review_loop\<close> returns: every executed step
  belongs to one of the iterations 0, 1, 2, at most 3 times 2 child steps are executed, and
  the loop ends \<open>Exited\<close> or \<open>MaxedOut\<close>. If no step ever raises the exit signal, the loop
  ends \<open>MaxedOut\<close> after exactly three full iterations.
\<close>

theorem trial_review_loop_terminates:
  "\<exists>s' evs st. run_loop_agent exec (trial_review_loop environ) s = Some (s', evs, st)
     \<and> (\<forall>e\<in>set evs. iteration e < 3)
     \<and> length evs \<le> 3 * 2
     \<and> (st = Exited \<or> st = MaxedOut)
     \<and> ((\<forall>e\<in>set evs. \<not> raised e) \<longrightarrow> st = MaxedOut \<and> length evs = 3 * 2)"
proof -
  let ?children = "[exec (investigation_stage environ), exec (the_judge environ)]"
  obtain s' evs st where run: "loop_step 3 ?children 0 s = (s', evs, st)"
    by (cases "loop_step 3 ?children 0 s") auto
  from loop_step_events [OF run]
  have "(\<forall>e\<in>set evs. iteration e < 3) \<and> length evs \<le> 3 * 2 \<and> (st = Exited \<or> st = MaxedOut)"
    by simp
  moreover from loop_step_no_signal [OF run]
  have "(\<forall>e\<in>set evs. \<not> raised e) \<longrightarrow> st = MaxedOut \<and> length evs = 3 * 2"
    by simp
  ultimately show ?thesis
    using run by (simp add: run_trial_review_loop)
qed

theorem trial_review_loop_terminates_witness:
  "run_loop_agent nobody_exits (trial_review_loop example_environ) 0 =
     Some (6,
       [\<lparr>iteration = 0, child = 0, raised = False\<rparr>, \<lparr>iteration = 0, child = 1, raised = False\<rparr>,
        \<lparr>iteration = 1, child = 0, raised = False\<rparr>, \<lparr>iteration = 1, child = 1, raised = False\<rparr>,
        \<lparr>iteration = 2, child = 0, raised = False\<rparr>, \<lparr>iteration = 2, child = 1, raised = False\<rparr>],
       MaxedOut)"
  using trial_review_loop_terminates [of nobody_exits example_environ 0]
  by (simp add: run_trial_review_loop loop_step.simps)

text \<open>
  C3. In every run of \<open>trial_review_loop\<close> in which an executed step raises the exit signal,
  the loop ends \<open>Exited\<close> and that step is the last one run: every executed step lies in an
  earlier iteration or, in the same iteration, at a position not after it. So the remaining
  siblings of that iteration are skipped and no further iteration begins.
\<close>

theorem trial_review_loop_exits_at_signal:
  assumes "run_loop_agent exec (trial_review_loop environ) s = Some (s', evs, st)"
    and "e \<in> set evs" and "raised e"
  shows "st = Exited
       \<and> (\<forall>e'\<in>set evs. iteration e' < iteration e
             \<or> (iteration e' = iteration e \<and> child e' \<le> child e))"
proof -
  let ?children = "[exec (investigation_stage environ), exec (the_judge environ)]"
  from assms(1) have run: "loop_step 3 ?children 0 s = (s', evs, st)"
    by (simp add: run_trial_review_loop)
  from assms(3) have "e = \<lparr>iteration = iteration e, child = child e, raised = True\<rparr>"
    by simp
  with assms(2) have "\<lparr>iteration = iteration e, child = child e, raised = True\<rparr> \<in> set evs"
    by simp
  from loop_step_exit [OF run this] show ?thesis .
qed

theorem trial_review_loop_exits_at_signal_witness:
  "run_loop_agent judge_exits_second_review (trial_review_loop example_environ) 0 =
     Some (2,
       [\<lparr>iteration = 0, child = 0, raised = False\<rparr>, \<lparr>iteration = 0, child = 1, raised = False\<rparr>,
        \<lparr>iteration = 1, child = 0, raised = False\<rparr>, \<lparr>iteration = 1, child = 1, raised = True\<rparr>],
       Exited)
   \<and> raised \<lparr>iteration = 1, child = 1, raised = True\<rparr>"
proof -
  let ?evs = "[\<lparr>iteration = 0, child = 0, raised = False\<rparr>, \<lparr>iteration = 0, child = 1, raised = False\<rparr>,
        \<lparr>iteration = 1, child = 0, raised = False\<rparr>, \<lparr>iteration = 1, child = 1, raised = True\<rparr>]"
  have run: "run_loop_agent judge_exits_second_review (trial_review_loop example_environ) 0 =
      Some (2, ?evs, Exited)"
    by (simp add: run_trial_review_loop investigation_stage_def the_judge_def loop_step.simps)
  have mem: "\<lparr>iteration = 1, child = 1, raised = True\<rparr> \<in> set ?evs"
    by simp
  have sig: "raised \<lparr>iteration = 1, child = 1, raised = True\<rparr>"
    by simp
  from trial_review_loop_exits_at_signal [OF run mem sig] run sig show ?thesis
    by simp
qed

section \<open>Properties of the file export tool\<close>

lemma os_path_join_empty_folder:
  "sep \<notin> set file_name \<Longrightarrow> os_path_join [] file_name = file_name"
  by (simp add: os_path_join_def)

lemma os_path_dirname_no_sep:
  "sep \<notin> set p \<Longrightarrow> os_path_dirname p = []"
  by (auto simp: os_path_dirname_def dropWhile_eq_Nil_conv)

lemma lookup_empty: "lookup w [] = Inl FileNotFoundError"
  by (simp add: lookup_def)

lemma os_makedirs_empty: "os_makedirs w [] = (w, Inl FileNotFoundError)"
  by (simp add: os_makedirs.simps [of w "[]"] os_path_split_def mkdir_exist_ok_def
      os_mkdir_def os_path_isdir_def lookup_empty)

lemma export_verdict_to_txt_empty_folder:
  "sep \<notin> set file_name \<Longrightarrow>
     export_verdict_to_txt w [] file_name text_content = (w, Inl FileNotFoundError)"
  by (simp add: export_verdict_to_txt_def os_path_join_empty_folder os_path_dirname_no_sep
      os_makedirs_empty)

lemma rstrip_sep_decompose: "\<exists>k. p = rstrip_sep p @ replicate k sep"
proof -
  let ?xs = "takeWhile (\<lambda>c. c = sep) (rev p)"
  have "rev p = ?xs @ dropWhile (\<lambda>c. c = sep) (rev p)"
    by simp
  then have "p = rstrip_sep p @ rev ?xs"
    unfolding rstrip_sep_def by (metis rev_append rev_rev_ident)
  moreover have "?xs = replicate (length ?xs) sep"
    by (rule replicate_length_same [symmetric]) (auto dest: set_takeWhileD)
  then have "rev ?xs = replicate (length ?xs) sep"
    by (metis rev_replicate)
  ultimately show ?thesis
    by metis
qed

lemma rstrip_sep_no_trailing: "p \<noteq> [] \<Longrightarrow> last p \<noteq> sep \<Longrightarrow> rstrip_sep p = p"
  by (cases p rule: rev_cases) (auto simp: rstrip_sep_def)

lemma rstrip_sep_snoc: "rstrip_sep (p @ [sep]) = rstrip_sep p"
  by (simp add: rstrip_sep_def)

lemma head_of_join:
  assumes "folder \<noteq> []" and "sep \<notin> set file_name"
  shows "rev (dropWhile (\<lambda>c. c \<noteq> sep) (rev (os_path_join folder file_name)))
           = (if last folder = sep then folder else folder @ [sep])"
proof -
  from assms(2) have nohd: "\<not> (file_name \<noteq> [] \<and> hd file_name = sep)"
    by (cases file_name) auto
  from assms(2) have all: "dropWhile (\<lambda>c. c \<noteq> sep) (rev file_name @ ys) = dropWhile (\<lambda>c. c \<noteq> sep) ys" for ys
    by (intro dropWhile_append2) auto
  show ?thesis
  proof (cases "last folder = sep")
    case True
    with assms(1) obtain g where g: "folder = g @ [sep]"
      by (cases folder rule: rev_cases) auto
    from True nohd have "os_path_join folder file_name = folder @ file_name"
      by (auto simp: os_path_join_def)
    then show ?thesis
      using True by (simp add: g all)
  next
    case False
    with assms(1) nohd have "os_path_join folder file_name = folder @ [sep] @ file_name"
      by (auto simp: os_path_join_def)
    then show ?thesis
      using False by (simp add: all)
  qed
qed

lemma os_path_dirname_join:
  assumes "folder \<noteq> []" and "sep \<notin> set file_name"
  shows "os_path_dirname (os_path_join folder file_name)
           = (if folder = replicate (length folder) sep then folder else rstrip_sep folder)"
proof (cases "last folder = sep")
  case True
  with head_of_join [OF assms] show ?thesis
    using assms(1) by (simp add: os_path_dirname_def)
next
  case False
  from assms(1) False have notall: "folder @ [sep] \<noteq> replicate (Suc (length folder)) sep"
    by (cases folder rule: rev_cases) (auto simp: replicate_append_same [symmetric] simp del: replicate_append_same)
  from assms(1) False have notall': "folder \<noteq> replicate (length folder) sep"
    by (cases folder rule: rev_cases) (auto simp: replicate_append_same [symmetric] simp del: replicate_append_same)
  from head_of_join [OF assms] False notall notall' show ?thesis
    by (simp add: os_path_dirname_def rstrip_sep_snoc)
qed

text \<open>
  C5, as stated, fails: when the working directory refuses the new folder, the call raises
  \<^verbatim>\<open>PermissionError\<close>; it does not return a result with a failed status.
\<close>

theorem export_verdict_to_txt_permission_counterexample:
  "export_verdict_to_txt readonly_world ''historical_court_reports'' ''Napoleon.txt'' (py_str ''verdict'')
     = (readonly_world, Inl PermissionError)"
  by (simp add: export_verdict_to_txt_def os_path_join_def os_path_dirname_def rstrip_sep_def
      os_makedirs.simps os_path_split_def mkdir_exist_ok_def os_mkdir_def os_path_isdir_def
      os_path_exists_def lookup_def start_dir_def sep_def nul_def readonly_world_def
      example_world_def)

text \<open>
  C5, amended. The tool has no failed status. When the directory creation, the open or the
  write fails, the call raises that error to its caller, with the filesystem as the failing step
  left it; and when all three succeed it returns the success status. These are the only
  outcomes.
\<close>

theorem export_verdict_to_txt_raises:
  "(\<exists>w1 e. os_makedirs w (os_path_dirname (os_path_join folder file_name)) = (w1, Inl e)
        \<and> export_verdict_to_txt w folder file_name text_content = (w1, Inl e))
   \<or> (\<exists>w1 w2 e. os_makedirs w (os_path_dirname (os_path_join folder file_name)) = (w1, Inr ())
        \<and> open_w w1 (os_path_join folder file_name) = (w2, Inl e)
        \<and> export_verdict_to_txt w folder file_name text_content = (w2, Inl e))
   \<or> (\<exists>w1 w2 file w3 e. os_makedirs w (os_path_dirname (os_path_join folder file_name)) = (w1, Inr ())
        \<and> open_w w1 (os_path_join folder file_name) = (w2, Inr file)
        \<and> file_write w2 file text_content = (w3, Inl e)
        \<and> export_verdict_to_txt w folder file_name text_content = (w3, Inl e))
   \<or> (\<exists>w1 w2 file w3. os_makedirs w (os_path_dirname (os_path_join folder file_name)) = (w1, Inr ())
        \<and> open_w w1 (os_path_join folder file_name) = (w2, Inr file)
        \<and> file_write w2 file text_content = (w3, Inr ())
        \<and> export_verdict_to_txt w folder file_name text_content = (w3, Inr [(''status'', ''success'')]))"
proof -
  let ?path = "os_path_join folder file_name"
  obtain w1 r1 where mk: "os_makedirs w (os_path_dirname ?path) = (w1, r1)"
    by (cases "os_makedirs w (os_path_dirname ?path)") auto
  obtain w2 r2 where op: "open_w w1 ?path = (w2, r2)"
    by (cases "open_w w1 ?path") auto
  show ?thesis
  proof (cases r1)
    case (Inl e)
    with mk show ?thesis
      by (simp add: export_verdict_to_txt_def)
  next
    case made: (Inr u)
    show ?thesis
    proof (cases r2)
      case (Inl e)
      with mk made op show ?thesis
        by (simp add: export_verdict_to_txt_def)
    next
      case opened: (Inr fh)
      obtain w3 r3 where wr: "file_write w2 fh text_content = (w3, r3)"
        by (cases "file_write w2 fh text_content") auto
      show ?thesis
      proof (cases r3)
        case (Inl e)
        with mk made op opened wr show ?thesis
          by (simp add: export_verdict_to_txt_def)
      next
        case (Inr u')
        with mk made op opened wr show ?thesis
          by (simp add: export_verdict_to_txt_def)
      qed
    qed
  qed
qed

theorem export_verdict_to_txt_raises_witness:
  "os_makedirs blocked_world (os_path_dirname (os_path_join ''historical_court_reports'' ''Napoleon.txt''))
     = (blocked_world, Inl FileExistsError)
   \<and> export_verdict_to_txt blocked_world ''historical_court_reports'' ''Napoleon.txt'' (py_str ''verdict'')
     = (blocked_world, Inl FileExistsError)"
proof -
  have mk: "os_makedirs blocked_world (os_path_dirname (os_path_join ''historical_court_reports'' ''Napoleon.txt''))
     = (blocked_world, Inl FileExistsError)"
    by (simp add: os_path_join_def os_path_dirname_def rstrip_sep_def
      os_makedirs.simps os_path_split_def mkdir_exist_ok_def os_mkdir_def os_path_isdir_def
      os_path_exists_def lookup_def start_dir_def sep_def nul_def blocked_world_def
      example_world_def)
  with export_verdict_to_txt_raises [of blocked_world "''historical_court_reports''" "''Napoleon.txt''" "py_str ''verdict''"]
  show ?thesis
    by auto
qed












lemma split_sep_no_sep: "sep \<notin> set c \<Longrightarrow> split_sep c = [c]"
  by (induction c) auto





































lemma split_sep_nonempty: "split_sep p \<noteq> []"
  by (induction p) (auto split: list.splits)

lemma split_sep_append_sep: "split_sep (a @ sep # b) = split_sep a @ split_sep b"
proof (induction a)
  case Nil
  then show ?case by simp
next
  case (Cons c a)
  then show ?case
    using split_sep_nonempty [of a] by (auto split: list.splits)
qed

lemma walk_append:
  "walk fs cur (xs @ ys) = (case walk fs cur xs of Inl e \<Rightarrow> Inl e | Inr q \<Rightarrow> walk fs q ys)"
  by (induction xs arbitrary: cur) (auto split: option.splits node.splits)

lemma walk_more_files:
  assumes "\<forall>p. fs p = Some Dir \<longrightarrow> fs' p = Some Dir" and "walk fs cur xs = Inr q"
  shows "walk fs' cur xs = Inr q"
  using assms(2)
proof (induction xs arbitrary: cur)
  case Nil
  then show ?case by simp
next
  case (Cons c xs)
  from Cons.prems have here: "fs cur = Some Dir"
    by (auto split: option.splits node.splits)
  with assms(1) have "fs' cur = Some Dir"
    by simp
  with here Cons show ?case
    by simp
qed

lemma open_w_Inr:
  assumes "open_w w p = (w', Inr fh)"
  shows "nul \<notin> set p \<and> p \<noteq> []
       \<and> (\<exists>parent. walk (nodes w) (start_dir w p) (butlast (split_sep p)) = Inr parent
            \<and> nodes w parent = Some Dir
            \<and> fh = parent @ [last (split_sep p)])
       \<and> last (split_sep p) \<noteq> [] \<and> last (split_sep p) \<noteq> ''.'' \<and> last (split_sep p) \<noteq> ''..''
       \<and> nodes w fh \<noteq> Some Dir
       \<and> w' = w\<lparr>nodes := (nodes w)(fh \<mapsto> File [])\<rparr>"
  using assms
  by (auto simp: open_w_def Let_def split: if_splits sum.splits option.splits node.splits)


lemma export_verdict_to_txt_Inr:
  assumes "export_verdict_to_txt w folder file_name t = (w', Inr r)"
  shows "r = [(''status'', ''success'')]
       \<and> (\<exists>w1 w2 fh b.
             os_makedirs w (os_path_dirname (os_path_join folder file_name)) = (w1, Inr ())
           \<and> open_w w1 (os_path_join folder file_name) = (w2, Inr fh)
           \<and> utf8_encode t = Inr b
           \<and> w' = w2\<lparr>nodes := (nodes w2)(fh \<mapsto> File b)\<rparr>)"
  using assms
  by (auto simp: export_verdict_to_txt_def Let_def file_write_def
      split: prod.splits sum.splits)

lemma export_verdict_to_txt_success_post:
  assumes ex: "export_verdict_to_txt w folder file_name t = (w', Inr r)"
  shows "r = [(''status'', ''success'')]
       \<and> (\<exists>b. utf8_encode t = Inr b \<and> lookup w' (os_path_join folder file_name) = Inr (File b))
       \<and> (sep \<notin> set file_name \<longrightarrow> lookup w' folder = Inr Dir)
       \<and> state w' = state w"
proof -
  let ?p = "os_path_join folder file_name"
  from export_verdict_to_txt_Inr [OF ex] obtain w1 w2 fh b where
    r: "r = [(''status'', ''success'')]"
    and mk: "os_makedirs w (os_path_dirname ?p) = (w1, Inr ())"
    and op: "open_w w1 ?p = (w2, Inr fh)"
    and enc: "utf8_encode t = Inr b"
    and w': "w' = w2\<lparr>nodes := (nodes w2)(fh \<mapsto> File b)\<rparr>"
    by blast
  from open_w_Inr [OF op] obtain parent where
    nonul: "nul \<notin> set ?p" and ne: "?p \<noteq> []"
    and wk: "walk (nodes w1) (start_dir w1 ?p) (butlast (split_sep ?p)) = Inr parent"
    and pdir: "nodes w1 parent = Some Dir"
    and fh: "fh = parent @ [last (split_sep ?p)]"
    and c: "last (split_sep ?p) \<noteq> []" "last (split_sep ?p) \<noteq> ''.''" "last (split_sep ?p) \<noteq> ''..''"
    and nodir: "nodes w1 fh \<noteq> Some Dir"
    and w2: "w2 = w1\<lparr>nodes := (nodes w1)(fh \<mapsto> File [])\<rparr>"
    by blast
  from w' w2 have nodes': "nodes w' = (nodes w1)(fh \<mapsto> File b)" and cwd': "cwd w' = cwd w1"
    and st': "state w' = state w1"
    by simp_all
  have start': "start_dir w' q = start_dir w1 q" for q
    using cwd' by (simp add: start_dir_def)
  from nodir have dirs: "\<forall>q. nodes w1 q = Some Dir \<longrightarrow> nodes w' q = Some Dir"
    by (auto simp: nodes')
  from walk_more_files [OF dirs wk]
  have wk': "walk (nodes w') (start_dir w1 ?p) (butlast (split_sep ?p)) = Inr parent" .
  from pdir dirs have pdir': "nodes w' parent = Some Dir"
    by simp
  have comps: "split_sep ?p = butlast (split_sep ?p) @ [last (split_sep ?p)]"
    using split_sep_nonempty [of ?p] by simp
  have "walk (nodes w') (start_dir w1 ?p) (split_sep ?p) = Inr fh"
    by (subst comps) (simp add: walk_append wk' pdir' c fh)
  moreover have "nodes w' fh = Some (File b)"
    by (simp add: nodes')
  ultimately have written: "lookup w' ?p = Inr (File b)"
    using nonul ne by (simp add: lookup_def start')
  have folder: "lookup w' folder = Inr Dir" if nosep: "sep \<notin> set file_name"
  proof -
    from nosep have nohd: "\<not> (file_name \<noteq> [] \<and> hd file_name = sep)"
      by (cases file_name) auto
    have fne: "folder \<noteq> []"
    proof
      assume "folder = []"
      with nosep mk show False
        by (simp add: os_path_join_empty_folder os_path_dirname_no_sep os_makedirs_empty)
    qed
    from nosep have one: "split_sep file_name = [file_name]"
      by (rule split_sep_no_sep)
    have "walk (nodes w') (start_dir w1 ?p) (split_sep folder) = Inr parent
        \<and> set folder \<subseteq> set ?p \<and> hd folder = hd ?p"
    proof (cases "last folder = sep")
      case True
      with fne obtain g where g: "folder = g @ [sep]"
        by (cases folder rule: rev_cases) auto
      from True nohd have p: "?p = g @ sep # file_name"
        by (auto simp: os_path_join_def g)
      have "split_sep ?p = split_sep g @ [file_name]"
        by (simp add: p split_sep_append_sep one)
      with wk' have "walk (nodes w') (start_dir w1 ?p) (split_sep g) = Inr parent"
        by simp
      moreover have "split_sep folder = split_sep g @ [[]]"
        using split_sep_append_sep [of g "[]"] by (simp add: g)
      ultimately have "walk (nodes w') (start_dir w1 ?p) (split_sep folder) = Inr parent"
        using pdir' by (simp add: walk_append)
      moreover from g p have "set folder \<subseteq> set ?p" "hd folder = hd ?p"
        by (auto simp: hd_append)
      ultimately show ?thesis
        by simp
    next
      case False
      with fne nohd have p: "?p = folder @ sep # file_name"
        by (auto simp: os_path_join_def)
      have "split_sep ?p = split_sep folder @ [file_name]"
        by (simp add: p split_sep_append_sep one)
      with wk' have "walk (nodes w') (start_dir w1 ?p) (split_sep folder) = Inr parent"
        by simp
      moreover from fne p have "set folder \<subseteq> set ?p" "hd folder = hd ?p"
        by (auto simp: hd_append)
      ultimately show ?thesis
        by simp
    qed
    then have wkf: "walk (nodes w') (start_dir w1 ?p) (split_sep folder) = Inr parent"
      and sub: "set folder \<subseteq> set ?p" and hd: "hd folder = hd ?p"
      by simp_all
    from hd fne ne have "start_dir w1 folder = start_dir w1 ?p"
      by (simp add: start_dir_def)
    with wkf pdir' sub nonul fne show ?thesis
      by (auto simp: lookup_def start')
  qed
  from os_makedirs_keeps_session [of w "os_path_dirname ?p"] mk have "state w1 = state w"
    by simp
  with st' have "state w' = state w"
    by simp
  with r enc written folder show ?thesis
    by blast
qed



text \<open>
  C10. With a file name free of separators and the empty string as folder, the joined path is
  the file name, its directory name is empty and \<^verbatim>\<open>os.makedirs\<close> fails on it: the call raises
  \<^verbatim>\<open>FileNotFoundError\<close>, returns no status and leaves the world (the working directory too)
  as it was. With a folder that is not empty, the name handed to \<^verbatim>\<open>os.makedirs\<close> is the folder
  itself, up to separators at its end: exactly the folder when it does not end with one. And
  whenever the call returns, the folder is a directory.
\<close>

theorem export_verdict_to_txt_folder:
  assumes "sep \<notin> set file_name"
  shows "os_makedirs w (os_path_dirname (os_path_join [] file_name)) = (w, Inl FileNotFoundError)
       \<and> export_verdict_to_txt w [] file_name text_content = (w, Inl FileNotFoundError)
       \<and> (folder \<noteq> [] \<longrightarrow>
            (\<exists>k. folder = os_path_dirname (os_path_join folder file_name) @ replicate k sep))
       \<and> (folder \<noteq> [] \<and> last folder \<noteq> sep \<longrightarrow>
            os_path_dirname (os_path_join folder file_name) = folder)
       \<and> (export_verdict_to_txt v folder file_name t = (v', Inr r) \<longrightarrow> lookup v' folder = Inr Dir)"
proof (intro conjI impI)
  assume "export_verdict_to_txt v folder file_name t = (v', Inr r)"
  from export_verdict_to_txt_success_post [OF this] assms show "lookup v' folder = Inr Dir"
    by simp
next
  show "os_makedirs w (os_path_dirname (os_path_join [] file_name)) = (w, Inl FileNotFoundError)"
    using assms by (simp add: os_path_join_empty_folder os_path_dirname_no_sep os_makedirs_empty)
next
  show "export_verdict_to_txt w [] file_name text_content = (w, Inl FileNotFoundError)"
    using assms by (rule export_verdict_to_txt_empty_folder)
next
  assume ne: "folder \<noteq> []"
  show "\<exists>k. folder = os_path_dirname (os_path_join folder file_name) @ replicate k sep"
  proof (cases "folder = replicate (length folder) sep")
    case True
    with os_path_dirname_join [OF ne assms] have "folder = os_path_dirname (os_path_join folder file_name) @ replicate 0 sep"
      by simp
    then show ?thesis ..
  next
    case False
    with os_path_dirname_join [OF ne assms] rstrip_sep_decompose [of folder] show ?thesis
      by simp
  qed
next
  assume "folder \<noteq> [] \<and> last folder \<noteq> sep"
  then have ne: "folder \<noteq> []" and nt: "last folder \<noteq> sep"
    by simp_all
  from ne nt have "folder \<noteq> replicate (length folder) sep"
    by (cases folder rule: rev_cases) (auto simp: replicate_append_same [symmetric] simp del: replicate_append_same)
  with os_path_dirname_join [OF ne assms] rstrip_sep_no_trailing [OF ne nt]
  show "os_path_dirname (os_path_join folder file_name) = folder"
    by simp
qed

theorem export_verdict_to_txt_folder_witness:
  "sep \<notin> set ''Napoleon.txt''
   \<and> export_verdict_to_txt example_world [] ''Napoleon.txt'' (py_str ''verdict'')
       = (example_world, Inl FileNotFoundError)
   \<and> os_path_dirname (os_path_join ''historical_court_reports'' ''Napoleon.txt'')
       = ''historical_court_reports''
   \<and> ''reports//'' = os_path_dirname (os_path_join ''reports//'' ''Napoleon.txt'') @ replicate 2 sep
   \<and> snd (export_verdict_to_txt example_world ''historical_court_reports'' ''Napoleon.txt'' (py_str ''verdict''))
       = Inr [(''status'', ''success'')]
   \<and> lookup (fst (export_verdict_to_txt example_world ''historical_court_reports'' ''Napoleon.txt''
         (py_str ''verdict''))) ''historical_court_reports'' = Inr Dir"
proof -
  let ?call = "export_verdict_to_txt example_world ''historical_court_reports'' ''Napoleon.txt''
    (py_str ''verdict'')"
  have nosep: "sep \<notin> set ''Napoleon.txt''"
    by (simp add: sep_def)
  have "os_path_dirname (os_path_join ''reports//'' ''Napoleon.txt'') = ''reports''"
    by (simp add: os_path_dirname_def os_path_join_def rstrip_sep_def sep_def)
  then have strip: "''reports//'' = os_path_dirname (os_path_join ''reports//'' ''Napoleon.txt'') @ replicate 2 sep"
    by (simp add: sep_def numeral_2_eq_2)
  have "snd ?call = Inr [(''status'', ''success'')]"
    by (simp add: export_verdict_to_txt_def os_path_join_def os_path_dirname_def rstrip_sep_def
      os_makedirs.simps os_path_split_def mkdir_exist_ok_def os_mkdir_def os_path_isdir_def
      os_path_exists_def lookup_def start_dir_def open_w_def file_write_def utf8_encode_char_def
      py_str_def sep_def nul_def example_world_def Let_def)
  then have returned: "?call = (fst ?call, Inr [(''status'', ''success'')])"
    by (simp add: prod_eq_iff)
  note inst = export_verdict_to_txt_folder [OF nosep, of example_world "py_str ''verdict''"
      "''historical_court_reports''" example_world "py_str ''verdict''" "fst ?call"
      "[(''status'', ''success'')]"]
  from inst returned have "lookup (fst ?call) ''historical_court_reports'' = Inr Dir"
    by blast
  with nosep strip inst \<open>snd ?call = Inr [(''status'', ''success'')]\<close> show ?thesis
    by (simp add: sep_def)
qed





text \<open>
  The other conditions of the amended claim are needed as well: a text with a surrogate code
  point leaves an empty file and raises; an empty file name makes the call raise.
\<close>

lemma export_verdict_to_txt_surrogate_example:
  "snd (export_verdict_to_txt example_world ''out'' ''x.txt'' [0xD800]) = Inl UnicodeEncodeError
   \<and> nodes (fst (export_verdict_to_txt example_world ''out'' ''x.txt'' [0xD800])) [''out'', ''x.txt'']
       = Some (File [])"
  by (simp add: export_verdict_to_txt_def os_path_join_def os_path_dirname_def rstrip_sep_def
      os_makedirs.simps os_path_split_def mkdir_exist_ok_def os_mkdir_def os_path_isdir_def
      os_path_exists_def lookup_def start_dir_def open_w_def file_write_def utf8_encode_char_def
      py_str_def sep_def nul_def example_world_def Let_def)

lemma export_verdict_to_txt_empty_file_name_example:
  "snd (export_verdict_to_txt example_world ''out'' [] (py_str ''hello'')) = Inl IsADirectoryError"
  by (simp add: export_verdict_to_txt_def os_path_join_def os_path_dirname_def rstrip_sep_def
      os_makedirs.simps os_path_split_def mkdir_exist_ok_def os_mkdir_def os_path_isdir_def
      os_path_exists_def lookup_def start_dir_def open_w_def file_write_def utf8_encode_char_def
      py_str_def sep_def nul_def example_world_def Let_def)

end
